theory Spec2Isabelle
  imports Main
begin

section \<open>wmtiler: data model\<close>

text \<open>
  The embedding follows \<^verbatim>\<open>src/wmtiler.cpp\<close>. Window and desktop identifiers are
  \<^verbatim>\<open>unsigned long\<close> values that the program only compares and copies, so they are
  natural numbers here. Pixel quantities are C++ \<^verbatim>\<open>int\<close>; they are modelled as
  \<^typ>\<open>int\<close> with the truncating division of C++ written out. Signed overflow is
  undefined in C++ and \<^verbatim>\<open>distribute\<close> cannot overflow (its quotient and remainder are
  bounded by the total), so no wrap-around is modelled.
\<close>

type_synonym window = nat

type_synonym desktop = nat

record DesktopLayout =
  marginLeft :: int
  marginRight :: int
  marginTop :: int
  marginBottom :: int
  gap :: int

record Rect =
  x :: int
  y :: int
  width :: int
  height :: int

text \<open>The global \<^verbatim>\<open>g_windowOrder\<close>: a \<^verbatim>\<open>std::map\<close> from desktop to window vector.\<close>

type_synonym registry = "desktop \<rightharpoonup> window list"

section \<open>Layout calculator\<close>

text \<open>C++ \<^verbatim>\<open>/\<close> on \<^verbatim>\<open>int\<close> rounds towards zero.\<close>

definition cpp_div :: "int \<Rightarrow> int \<Rightarrow> int" where
  "cpp_div a b = (if (a < 0) = (b < 0) then \<bar>a\<bar> div \<bar>b\<bar> else - (\<bar>a\<bar> div \<bar>b\<bar>))"

text \<open>
  \<^verbatim>\<open>distribute\<close>: \<^verbatim>\<open>base = total / slots\<close>, \<^verbatim>\<open>remainder = total - base * slots\<close>,
  then one \<^verbatim>\<open>push_back\<close> for each \<^verbatim>\<open>i\<close> from 0 below \<^verbatim>\<open>slots\<close>.
\<close>

definition distribute :: "int \<Rightarrow> int \<Rightarrow> int list" where
  "distribute tot slots =
     (if slots \<le> 0 then []
      else
        let base = cpp_div tot slots;
            remainder = tot - base * slots
        in map (\<lambda>i. base + (if int i < remainder then 1 else 0)) [0..<nat slots])"

text \<open>The \<^verbatim>\<open>while (remaining > 0)\<close> loop of \<^verbatim>\<open>buildRows\<close>.\<close>

function buildRows_loop :: "int \<Rightarrow> int list \<Rightarrow> int list" where
  "buildRows_loop remaining rows =
     (if remaining > 0 then
        (let cols = (if remaining \<ge> 3 then 3 else remaining)
         in buildRows_loop (remaining - cols) (rows @ [cols]))
      else rows)"
  by pat_completeness auto
termination
  by (relation "measure (\<lambda>(remaining, rows). nat remaining)") (auto simp: Let_def)

declare buildRows_loop.simps [simp del]

definition buildRows :: "int \<Rightarrow> int list" where
  "buildRows count =
     (if count = 1 then [1]
      else if count = 2 then [2]
      else if count = 3 then [3]
      else if count = 4 then [2, 2]
      else if count = 5 then [2, 3]
      else if count = 6 then [3, 3]
      else buildRows_loop count [])"

text \<open>
  The inner loop of \<^verbatim>\<open>computePositions\<close> over the widths of one row: emit a
  rectangle, advance \<^verbatim>\<open>x\<close>, and leave the loop when \<^verbatim>\<open>--remaining == 0\<close>.
  It returns the updated \<^verbatim>\<open>remaining\<close> and \<^verbatim>\<open>result\<close>.
\<close>

fun columns_loop :: "int \<Rightarrow> int \<Rightarrow> int \<Rightarrow> int list \<Rightarrow> int \<Rightarrow> int \<Rightarrow> Rect list
    \<Rightarrow> int \<times> Rect list" where
  "columns_loop g yy h [] xx remaining result = (remaining, result)"
| "columns_loop g yy h (w # ws) xx remaining result =
     (let result' = result @ [\<lparr>x = xx, y = yy, width = w, height = h\<rparr>];
          xx' = xx + (w + g);
          remaining' = remaining - 1
      in if remaining' = 0 then (remaining', result')
         else columns_loop g yy h ws xx' remaining' result')"

text \<open>
  The outer loop over \<^verbatim>\<open>rowIdx\<close>, guarded by \<^verbatim>\<open>rowIdx < rows.size() && remaining > 0\<close>.
  \<^verbatim>\<open>rowHeights\<close> has one entry for each row, so the loop walks both vectors together;
  the index \<^verbatim>\<open>rowHeights[rowIdx]\<close> is always in range.
\<close>

fun rows_loop :: "DesktopLayout \<Rightarrow> int \<Rightarrow> int list \<Rightarrow> int list \<Rightarrow> int \<Rightarrow> int \<Rightarrow> Rect list
    \<Rightarrow> Rect list" where
  "rows_loop layout usableWidth (r # rows) (h # rowHeights) remaining yy result =
     (if remaining > 0 then
        (let cols = min r remaining;
             rowWidth0 = usableWidth - gap layout * (cols - 1);
             rowWidth = (if rowWidth0 < 0 then 0 else rowWidth0);
             widths = distribute rowWidth cols;
             (remaining', result') =
               columns_loop (gap layout) yy h widths (marginLeft layout) remaining result
         in rows_loop layout usableWidth rows rowHeights remaining'
              (yy + (h + gap layout)) result')
      else result)"
| "rows_loop layout usableWidth rows rowHeights remaining yy result = result"

definition computePositions :: "int \<Rightarrow> int \<Rightarrow> int \<Rightarrow> DesktopLayout \<Rightarrow> Rect list" where
  "computePositions count screenW screenH layout =
     (if count \<le> 0 then []
      else
        let rows = buildRows count;
            usableWidth = max 0 (screenW - marginLeft layout - marginRight layout);
            totalVertical = max 0 (screenH - marginTop layout - marginBottom layout);
            usableHeight0 = totalVertical - gap layout * (int (length rows) - 1);
            usableHeight = (if usableHeight0 < 0 then 0 else usableHeight0);
            rowHeights = distribute usableHeight (int (length rows))
        in rows_loop layout usableWidth rows rowHeights count (marginTop layout) [])"

section \<open>Group registry\<close>

text \<open>
  The two range-for loops of \<^verbatim>\<open>stableOrder\<close> have the same body: a window is
  appended to \<^verbatim>\<open>result\<close> exactly when \<^verbatim>\<open>remaining.erase(win) > 0\<close>, that is when
  it was still in the \<^verbatim>\<open>unordered_set\<close>, and the erase removes it.
\<close>

fun erase_loop :: "window list \<Rightarrow> window set \<Rightarrow> window list \<Rightarrow> window set \<times> window list" where
  "erase_loop [] remaining result = (remaining, result)"
| "erase_loop (win # wins) remaining result =
     (if win \<in> remaining then erase_loop wins (remaining - {win}) (result @ [win])
      else erase_loop wins remaining result)"

text \<open>
  \<^verbatim>\<open>g_windowOrder[desktop]\<close> default-constructs an empty vector for a desktop that has
  no entry; the final assignment \<^verbatim>\<open>stored = result\<close> writes through the reference.
\<close>

definition stableOrder :: "registry \<Rightarrow> desktop \<Rightarrow> window list \<Rightarrow> window list \<times> registry" where
  "stableOrder reg desktop current =
     (let stored = (case reg desktop of None \<Rightarrow> [] | Some ws \<Rightarrow> ws);
          remaining = set current;
          (remaining1, result1) = erase_loop stored remaining [];
          (remaining2, result2) = erase_loop current remaining1 result1
      in (result2, reg(desktop \<mapsto> result2)))"

text \<open>
  \<^verbatim>\<open>tileWindows\<close>. The answers of the X server are parameters: \<open>windows\<close> is what
  \<^verbatim>\<open>collectWindows\<close> returned for the desktop, \<open>screenW\<close> and \<open>screenH\<close> are the
  display size. The result is the new registry and the geometry sent to each window
  (the loop runs while \<^verbatim>\<open>i < ordered.size() && i < positions.size()\<close>).
\<close>

definition tileWindows :: "registry \<Rightarrow> desktop \<Rightarrow> window list \<Rightarrow> int \<Rightarrow> int \<Rightarrow> DesktopLayout
    \<Rightarrow> registry \<times> (window \<times> Rect) list" where
  "tileWindows reg desktop windows screenW screenH layout =
     (if windows = [] then (reg(desktop := None), [])
      else
        let (ordered, reg') = stableOrder reg desktop windows;
            positions = computePositions (int (length ordered)) screenW screenH layout
        in (reg', zip ordered positions))"

section \<open>Configuration\<close>

record Config =
  defaults :: DesktopLayout
  tiledDefaults :: DesktopLayout
  hasTiledDefaults :: bool
  perDesktop :: "desktop \<rightharpoonup> DesktopLayout"
  tiledDesktops :: "desktop set"
  debounce :: int

text \<open>
  \<^verbatim>\<open>defaultTiledDesktops\<close>; the argument is the answer of
  \<^verbatim>\<open>getCardinal(_NET_NUMBER_OF_DESKTOPS)\<close>, absent when the query fails.
\<close>

definition defaultTiledDesktops :: "nat option \<Rightarrow> desktop set" where
  "defaultTiledDesktops total_opt =
     (case total_opt of
        None \<Rightarrow> insert 0 {}
      | Some n \<Rightarrow> if n \<le> 1 then insert 0 {} else fold insert [1..<n] {})"

text \<open>
  The step of \<^verbatim>\<open>main\<close> between \<^verbatim>\<open>parseArgs\<close> and the run: an empty tiled set is
  replaced by the default one.
\<close>

definition main_tiledDesktops :: "Config \<Rightarrow> nat option \<Rightarrow> Config" where
  "main_tiledDesktops cfg total_opt =
     (if tiledDesktops cfg = {} then cfg\<lparr>tiledDesktops := defaultTiledDesktops total_opt\<rparr>
      else cfg)"

definition shouldTile :: "desktop \<Rightarrow> Config \<Rightarrow> bool" where
  "shouldTile desktop cfg \<longleftrightarrow> tiledDesktops cfg = {} \<or> desktop \<in> tiledDesktops cfg"

definition layoutForDesktop :: "Config \<Rightarrow> desktop \<Rightarrow> DesktopLayout" where
  "layoutForDesktop cfg desktop =
     (case perDesktop cfg desktop of
        Some l \<Rightarrow> l
      | None \<Rightarrow> if hasTiledDefaults cfg then tiledDefaults cfg else defaults cfg)"

section \<open>Reordering\<close>

text \<open>
  \<^verbatim>\<open>std::find\<close> as an offset from \<^verbatim>\<open>begin()\<close>: the position of the first occurrence,
  and the length of the vector for \<^verbatim>\<open>end()\<close>.
\<close>

fun find_pos :: "window list \<Rightarrow> window \<Rightarrow> nat" where
  "find_pos [] a = 0"
| "find_pos (w # ws) a = (if w = a then 0 else Suc (find_pos ws a))"

definition iter_swap :: "window list \<Rightarrow> nat \<Rightarrow> nat \<Rightarrow> window list" where
  "iter_swap ws i j = ws[i := ws ! j, j := ws ! i]"

text \<open>
  \<^verbatim>\<open>moveActiveWindow\<close>. \<open>windows\<close> and \<open>active\<close> are the answers of
  \<^verbatim>\<open>collectWindows\<close> and \<^verbatim>\<open>getActiveWindow\<close>; \<open>windows2\<close> is what the nested
  \<^verbatim>\<open>tileWindows\<close> call collects afterwards. The result is the returned flag, the
  registry, and the geometry applied by the nested call.
\<close>

definition moveActiveWindow :: "registry \<Rightarrow> desktop \<Rightarrow> window list \<Rightarrow> window option \<Rightarrow> Config
    \<Rightarrow> bool \<Rightarrow> window list \<Rightarrow> int \<Rightarrow> int \<Rightarrow> bool \<times> registry \<times> (window \<times> Rect) list" where
  "moveActiveWindow reg desktop windows active cfg forward windows2 screenW screenH =
     (if windows = [] then (False, reg(desktop := None), [])
      else
        let (ordered, reg1) = stableOrder reg desktop windows
        in case active of
             None \<Rightarrow> (False, reg1, [])
           | Some a \<Rightarrow>
               let it = find_pos ordered a
               in if it = length ordered then (False, reg1, [])
                  else if forward then
                    (if Suc it = length ordered then (False, reg1, [])
                     else
                       let (reg2, applied) =
                             tileWindows (reg1(desktop \<mapsto> iter_swap ordered it (Suc it)))
                               desktop windows2 screenW screenH (layoutForDesktop cfg desktop)
                       in (True, reg2, applied))
                  else
                    (if it = 0 then (False, reg1, [])
                     else
                       let (reg2, applied) =
                             tileWindows (reg1(desktop \<mapsto> iter_swap ordered it (it - 1)))
                               desktop windows2 screenW screenH (layoutForDesktop cfg desktop)
                       in (True, reg2, applied)))"

section \<open>Control loop\<close>

datatype CommandType = MoveLeft | MoveRight

text \<open>
  Everything that touches \<^verbatim>\<open>g_windowOrder\<close> goes through one of two paths, both
  gated by \<^verbatim>\<open>shouldTile\<close> on the current desktop: \<^verbatim>\<open>runOnce\<close> (the same body as
  the due branch of \<^verbatim>\<open>runDaemon\<close>), and one iteration of
  \<^verbatim>\<open>processPendingCommands\<close>. Each carries the answers the X server gave during it.
\<close>

datatype Action =
    Apply desktop "window list" int int
  | Command CommandType desktop "window list" "window option" "window list" int int

fun perform :: "Config \<Rightarrow> registry \<Rightarrow> Action \<Rightarrow> registry" where
  "perform cfg reg (Apply desktop windows screenW screenH) =
     (if \<not> shouldTile desktop cfg then reg
      else fst (tileWindows reg desktop windows screenW screenH (layoutForDesktop cfg desktop)))"
| "perform cfg reg (Command MoveLeft desktop windows active windows2 screenW screenH) =
     (if \<not> shouldTile desktop cfg then reg
      else fst (snd (moveActiveWindow reg desktop windows active cfg False windows2 screenW screenH)))"
| "perform cfg reg (Command MoveRight desktop windows active windows2 screenW screenH) =
     (if \<not> shouldTile desktop cfg then reg
      else fst (snd (moveActiveWindow reg desktop windows active cfg True windows2 screenW screenH)))"

text \<open>The registry after a run of the program: it starts empty.\<close>

definition registry_after :: "Config \<Rightarrow> Action list \<Rightarrow> registry" where
  "registry_after cfg actions = foldl (perform cfg) Map.empty actions"

section \<open>Debounce scheduler\<close>

text \<open>
  The local \<^verbatim>\<open>schedule\<close> of \<^verbatim>\<open>runDaemon\<close> is an optional time point. Readings of
  \<^verbatim>\<open>steady_clock::now()\<close> are inputs: each event comes with the reading taken while
  it is handled, and each pass of the outer loop with the reading of its due check.
\<close>

type_synonym time = int

datatype XEventType = PropertyNotify | CreateNotify | DestroyNotify | ConfigureNotify | OtherEvent

fun is_structural :: "XEventType \<Rightarrow> bool" where
  "is_structural OtherEvent = False"
| "is_structural _ = True"

fun handle_event :: "int \<Rightarrow> time option \<Rightarrow> XEventType \<times> time \<Rightarrow> time option" where
  "handle_event d schedule (PropertyNotify, now) = Some (now + d)"
| "handle_event d schedule (CreateNotify, now) = Some (now + d)"
| "handle_event d schedule (DestroyNotify, now) = Some (now + d)"
| "handle_event d schedule (ConfigureNotify, now) = Some (now + d)"
| "handle_event d schedule (OtherEvent, now) = schedule"

text \<open>The inner \<^verbatim>\<open>while (XPending(dpy))\<close> loop over the events of one pass.\<close>

fun events_loop :: "int \<Rightarrow> time option \<Rightarrow> (XEventType \<times> time) list \<Rightarrow> time option" where
  "events_loop d schedule [] = schedule"
| "events_loop d schedule (e # es) = events_loop d (handle_event d schedule e) es"

text \<open>
  \<^verbatim>\<open>if (schedule && now() >= *schedule)\<close>: the branch resets the schedule and retiles the
  current desktop (through \<^verbatim>\<open>tileWindows\<close>, when \<^verbatim>\<open>shouldTile\<close> allows it). The flag
  says whether the branch was taken.
\<close>

fun due_check :: "time option \<Rightarrow> time \<Rightarrow> time option \<times> bool" where
  "due_check None now = (None, False)"
| "due_check (Some due) now = (if now \<ge> due then (None, True) else (Some due, False))"

text \<open>One pass of the outer loop: the events handled in it, then the time of the check.\<close>

type_synonym tick = "(XEventType \<times> time) list \<times> time"

definition daemon_tick :: "int \<Rightarrow> time option \<Rightarrow> tick \<Rightarrow> time option \<times> bool" where
  "daemon_tick d schedule t = due_check (events_loop d schedule (fst t)) (snd t)"

text \<open>The passes of the loop in order; the result lists the check times at which a recompute ran.\<close>

fun daemon_loop :: "int \<Rightarrow> time option \<Rightarrow> tick list \<Rightarrow> time list" where
  "daemon_loop d schedule [] = []"
| "daemon_loop d schedule (t # ts) =
     (let (schedule', fired) = daemon_tick d schedule t
      in (if fired then [snd t] else []) @ daemon_loop d schedule' ts)"

text \<open>\<^verbatim>\<open>runDaemon\<close> starts with an empty \<^verbatim>\<open>schedule\<close>.\<close>

definition runDaemon_recomputes :: "int \<Rightarrow> tick list \<Rightarrow> time list" where
  "runDaemon_recomputes d ts = daemon_loop d None ts"

text \<open>
  The clock is read once for each structural event and once for each due check. These are
  the readings of a run in the order they are taken, and those of the structural events.
\<close>

definition tick_notifications :: "tick \<Rightarrow> time list" where
  "tick_notifications t = map snd (filter (\<lambda>e. is_structural (fst e)) (fst t))"

fun clock_readings :: "tick list \<Rightarrow> time list" where
  "clock_readings [] = []"
| "clock_readings (t # ts) = tick_notifications t @ [snd t] @ clock_readings ts"

fun notification_times :: "tick list \<Rightarrow> time list" where
  "notification_times [] = []"
| "notification_times (t # ts) = tick_notifications t @ notification_times ts"

section \<open>Auxiliary notions for the statements\<close>

text \<open>The order stored for a desktop, empty when the map has no entry.\<close>

definition stored_order :: "registry \<Rightarrow> desktop \<Rightarrow> window list" where
  "stored_order reg desktop = (case reg desktop of None \<Rightarrow> [] | Some ws \<Rightarrow> ws)"

text \<open>A list without its repetitions: every element stays at its first occurrence.\<close>

function keep_first :: "window list \<Rightarrow> window list" where
  "keep_first [] = []"
| "keep_first (w # ws) = w # keep_first (removeAll w ws)"
  by pat_completeness auto
termination
  by (relation "measure length") (auto simp: length_removeAll_less_eq less_Suc_eq_le)

text \<open>What every stored order satisfies: it is not empty and has no repetition.\<close>

definition order_inv :: "registry \<Rightarrow> bool" where
  "order_inv reg \<longleftrightarrow> (\<forall>g ws. reg g = Some ws \<longrightarrow> ws \<noteq> [] \<and> distinct ws)"

text \<open>
  Sample inputs: a layout without margins, the configuration of a plain
  \<^verbatim>\<open>wmtiler --daemon\<close> as \<^verbatim>\<open>parseArgs\<close> returns it, and that of
  \<^verbatim>\<open>wmtiler --daemon --tile-desktops 1,2,3\<close>.
\<close>

abbreviation (input) no_margins :: DesktopLayout where
  "no_margins \<equiv> \<lparr>marginLeft = 0, marginRight = 0, marginTop = 0, marginBottom = 0, gap = 0\<rparr>"

abbreviation (input) tile_unset :: Config where
  "tile_unset \<equiv> \<lparr>defaults = no_margins, tiledDefaults = no_margins, hasTiledDefaults = False,
     perDesktop = Map.empty, tiledDesktops = {}, debounce = 200\<rparr>"

abbreviation (input) tile_1_2_3 :: Config where
  "tile_1_2_3 \<equiv> \<lparr>defaults = no_margins, tiledDefaults = no_margins, hasTiledDefaults = False,
     perDesktop = Map.empty, tiledDesktops = {1, 2, 3}, debounce = 200\<rparr>"

section \<open>Properties of the layout calculator\<close>

lemma cpp_div_nonneg: "0 \<le> a \<Longrightarrow> 0 < b \<Longrightarrow> cpp_div a b = a div b"
  by (simp add: cpp_div_def)

lemma sum_list_extra:
  "0 \<le> r \<Longrightarrow>
   sum_list (map (\<lambda>i. b + (if int i < r then 1 else 0)) [0..<n]) = int n * b + min r (int n)"
  by (induction n) (auto simp: algebra_simps)

lemma distribute_length: "0 < slots \<Longrightarrow> length (distribute t slots) = nat slots"
  by (simp add: distribute_def Let_def)

lemma distribute_nth:
  "0 < slots \<Longrightarrow> i < nat slots \<Longrightarrow>
   distribute t slots ! i =
     cpp_div t slots + (if int i < t - cpp_div t slots * slots then 1 else 0)"
  by (simp add: distribute_def Let_def)

lemma distribute_sum:
  assumes "0 \<le> t" "0 < slots"
  shows "sum_list (distribute t slots) = t"
proof -
  have r: "t - (t div slots) * slots = t mod slots"
    by (simp add: minus_div_mult_eq_mod)
  have m: "0 \<le> t mod slots" "t mod slots < slots"
    using assms by simp_all
  then have "min (t mod slots) (int (nat slots)) = t mod slots"
    using assms by simp
  moreover have "int (nat slots) * (t div slots) + t mod slots = t"
    using assms by simp
  ultimately show ?thesis
    using assms m(1) by (simp add: distribute_def Let_def cpp_div_nonneg r sum_list_extra)
qed

lemma distribute_nonneg:
  assumes "0 \<le> t" "0 < slots" "v \<in> set (distribute t slots)"
  shows "0 \<le> v"
proof -
  have "0 \<le> t div slots"
    using assms by (simp add: pos_imp_zdiv_nonneg_iff)
  then show ?thesis
    using assms by (auto simp: distribute_def Let_def cpp_div_nonneg)
qed

text \<open>
  Claim C2, as amended. For \<open>slots \<le> 0\<close> the result is empty. For \<open>slots > 0\<close> it has
  exactly \<open>slots\<close> elements, and element \<open>i\<close> is the C++ quotient \<open>total / slots\<close> plus
  one when \<open>i\<close> is below the C++ remainder \<open>total - (total / slots) * slots\<close>. For a
  total that is not negative (the only totals \<^verbatim>\<open>computePositions\<close> passes, since it clamps
  them at zero), quotient and remainder are \<open>div\<close> and \<open>mod\<close>, every element is
  non-negative and the elements sum to the total. \<open>distribute(10, 3) = [4, 3, 3]\<close> and
  \<open>distribute(0, 3) = [0, 0, 0]\<close>.
\<close>

theorem distribute_partition:
  "(slots \<le> 0 \<longrightarrow> distribute tot slots = []) \<and>
   (0 < slots \<longrightarrow>
      length (distribute tot slots) = nat slots \<and>
      (\<forall>i < nat slots. distribute tot slots ! i =
         cpp_div tot slots + (if int i < tot - cpp_div tot slots * slots then 1 else 0)) \<and>
      (0 \<le> tot \<longrightarrow>
         cpp_div tot slots = tot div slots \<and>
         tot - cpp_div tot slots * slots = tot mod slots \<and>
         (\<forall>v \<in> set (distribute tot slots). 0 \<le> v) \<and>
         sum_list (distribute tot slots) = tot)) \<and>
   distribute 10 3 = [4, 3, 3] \<and> distribute 0 3 = [0, 0, 0]"
proof -
  have a: "slots \<le> 0 \<longrightarrow> distribute tot slots = []"
    by (simp add: distribute_def)
  have b: "0 < slots \<longrightarrow> length (distribute tot slots) = nat slots"
    by (simp add: distribute_length)
  have c: "0 < slots \<longrightarrow> (\<forall>i < nat slots. distribute tot slots ! i =
         cpp_div tot slots + (if int i < tot - cpp_div tot slots * slots then 1 else 0))"
    using distribute_nth by blast
  have d: "0 < slots \<longrightarrow> 0 \<le> tot \<longrightarrow> cpp_div tot slots = tot div slots \<and>
         tot - cpp_div tot slots * slots = tot mod slots"
    by (simp add: cpp_div_nonneg minus_div_mult_eq_mod)
  have e: "0 < slots \<longrightarrow> 0 \<le> tot \<longrightarrow> (\<forall>v \<in> set (distribute tot slots). 0 \<le> v)"
    using distribute_nonneg by blast
  have f: "0 < slots \<longrightarrow> 0 \<le> tot \<longrightarrow> sum_list (distribute tot slots) = tot"
    by (simp add: distribute_sum)
  have g: "distribute 10 3 = [4, 3, 3]" "distribute 0 3 = [0, 0, 0]"
    by code_simp+
  from a b c d e f g show ?thesis by blast
qed

theorem distribute_partition_witness:
  "(0::int) < 3 \<and> (0::int) \<le> 10 \<and> (1::nat) < nat 3 \<and>
   length (distribute 10 3) = 3 \<and> distribute 10 3 ! 1 = 3 \<and>
   sum_list (distribute 10 3) = 10 \<and> (0::int) \<le> 0 \<and> distribute 10 0 = []"
  using distribute_partition [of 3 10] distribute_partition [of 0 10] by simp

text \<open>
  Claim C2 as stated fails for a negative total: \<open>distribute(-7, 3)\<close> is \<open>[-2, -2, -2]\<close>,
  whose elements are negative and sum to \<open>-6\<close>.
\<close>

theorem distribute_negative_total:
  "(0::int) < 3 \<and> distribute (- 7) 3 = [- 2, - 2, - 2] \<and>
   sum_list (distribute (- 7) 3) \<noteq> - 7 \<and> hd (distribute (- 7) 3) < 0"
  by code_simp

text \<open>
  Claim C3. \<open>computePositions(4, 1920, 1080, {0,0,0,0,0})\<close> is four rectangles of
  \<open>960 \<times> 540\<close> at \<open>(0,0)\<close>, \<open>(960,0)\<close>, \<open>(0,540)\<close>, \<open>(960,540)\<close>, and
  \<open>computePositions(5, 1920, 1080, {8,8,8,8,8})\<close> is two rectangles of \<open>948 \<times> 528\<close> at
  \<open>(8,8)\<close> and \<open>(964,8)\<close> followed by three of widths 630, 629, 629 and height 528 at
  \<open>(8,544)\<close>, \<open>(646,544)\<close>, \<open>(1283,544)\<close>.
\<close>

theorem computePositions_examples:
  "computePositions 4 1920 1080
     \<lparr>marginLeft = 0, marginRight = 0, marginTop = 0, marginBottom = 0, gap = 0\<rparr> =
     [\<lparr>x = 0, y = 0, width = 960, height = 540\<rparr>,
      \<lparr>x = 960, y = 0, width = 960, height = 540\<rparr>,
      \<lparr>x = 0, y = 540, width = 960, height = 540\<rparr>,
      \<lparr>x = 960, y = 540, width = 960, height = 540\<rparr>] \<and>
   computePositions 5 1920 1080
     \<lparr>marginLeft = 8, marginRight = 8, marginTop = 8, marginBottom = 8, gap = 8\<rparr> =
     [\<lparr>x = 8, y = 8, width = 948, height = 528\<rparr>,
      \<lparr>x = 964, y = 8, width = 948, height = 528\<rparr>,
      \<lparr>x = 8, y = 544, width = 630, height = 528\<rparr>,
      \<lparr>x = 646, y = 544, width = 629, height = 528\<rparr>,
      \<lparr>x = 1283, y = 544, width = 629, height = 528\<rparr>]"
  by code_simp

lemma buildRows_loop_eq:
  "buildRows_loop n acc =
     (if n \<le> 0 then acc
      else acc @ replicate (nat (n div 3)) 3 @ (if n mod 3 = 0 then [] else [n mod 3]))"
proof (induction n acc rule: buildRows_loop.induct)
  case (1 remaining rows)
  show ?case
  proof (cases "remaining > 0")
    case False
    then show ?thesis by (simp add: buildRows_loop.simps [of remaining rows])
  next
    case pos: True
    show ?thesis
    proof (cases "remaining \<ge> 3")
      case True
      have d: "(remaining - 3) div 3 = remaining div 3 - 1" by presburger
      have m: "(remaining - 3) mod 3 = remaining mod 3" by presburger
      have n: "nat (remaining div 3) = Suc (nat (remaining div 3 - 1))" using True by simp
      have "buildRows_loop remaining rows = buildRows_loop (remaining - 3) (rows @ [3])"
        using True by (simp add: buildRows_loop.simps [of remaining rows])
      also have "\<dots> = (if remaining - 3 \<le> 0 then rows @ [3]
          else (rows @ [3]) @ replicate (nat ((remaining - 3) div 3)) 3 @
             (if (remaining - 3) mod 3 = 0 then [] else [(remaining - 3) mod 3]))"
        using "1.IH" [of 3] pos True by simp
      also have "\<dots> = rows @ replicate (nat (remaining div 3)) 3 @
             (if remaining mod 3 = 0 then [] else [remaining mod 3])"
      proof (cases "remaining = 3")
        case True
        then show ?thesis by simp
      next
        case False
        then have "\<not> remaining - 3 \<le> 0" using True by simp
        then show ?thesis unfolding d m by (simp add: n replicate_append_same)
      qed
      finally show ?thesis using pos by simp
    next
      case False
      then have small: "remaining = 1 \<or> remaining = 2" using pos by arith
      have "buildRows_loop remaining rows = buildRows_loop 0 (rows @ [remaining])"
        using False pos by (simp add: buildRows_loop.simps [of remaining rows])
      also have "\<dots> = rows @ [remaining]" by (simp add: buildRows_loop.simps [of 0])
      finally show ?thesis using small by auto
    qed
  qed
qed

lemma buildRows_sum: "0 < n \<Longrightarrow> sum_list (buildRows n) = n"
  by (auto simp: buildRows_def buildRows_loop_eq sum_list_replicate)

text \<open>
  Claim C5. \<open>buildRows\<close> gives \<open>[1]\<close>, \<open>[2]\<close>, \<open>[3]\<close>, \<open>[2,2]\<close>, \<open>[2,3]\<close>, \<open>[3,3]\<close> for
  the counts 1 to 6. For a count above 6 it gives \<open>count div 3\<close> rows of three columns
  and then, when windows remain, one last row with the \<open>count mod 3\<close> of them; so
  \<open>buildRows(7) = [3,3,1]\<close>. For every positive count the rows sum to the count.
\<close>

theorem buildRows_shape:
  "buildRows 1 = [1] \<and> buildRows 2 = [2] \<and> buildRows 3 = [3] \<and>
   buildRows 4 = [2, 2] \<and> buildRows 5 = [2, 3] \<and> buildRows 6 = [3, 3] \<and>
   (6 < n \<longrightarrow> buildRows n =
      replicate (nat (n div 3)) 3 @ (if n mod 3 = 0 then [] else [n mod 3])) \<and>
   buildRows 7 = [3, 3, 1] \<and>
   (0 < n \<longrightarrow> sum_list (buildRows n) = n)"
proof -
  have small: "buildRows 1 = [1]" "buildRows 2 = [2]" "buildRows 3 = [3]"
    "buildRows 4 = [2, 2]" "buildRows 5 = [2, 3]" "buildRows 6 = [3, 3]"
    by (simp_all add: buildRows_def)
  have big: "6 < n \<longrightarrow> buildRows n =
      replicate (nat (n div 3)) 3 @ (if n mod 3 = 0 then [] else [n mod 3])"
    by (simp add: buildRows_def buildRows_loop_eq)
  have seven: "buildRows 7 = [3, 3, 1]"
    by code_simp
  have total: "0 < n \<longrightarrow> sum_list (buildRows n) = n"
    by (simp add: buildRows_sum)
  from small big seven total show ?thesis by blast
qed

theorem buildRows_shape_witness:
  "(6::int) < 11 \<and> buildRows 11 = [3, 3, 3, 2] \<and> sum_list (buildRows 11) = 11"
proof -
  have "replicate 3 (3::int) = [3, 3, 3]" by (simp add: numeral_3_eq_3)
  then show ?thesis using buildRows_shape [of 11] by simp
qed

section \<open>Properties of the group registry\<close>

lemma set_keep_first [simp]: "set (keep_first ws) = set ws"
  by (induction ws rule: keep_first.induct) auto

lemma distinct_keep_first [simp]: "distinct (keep_first ws)"
  by (induction ws rule: keep_first.induct) auto

lemma keep_first_distinct: "distinct ws \<Longrightarrow> keep_first ws = ws"
  by (induction ws) auto

lemma removeAll_filter_mem:
  "removeAll w (filter (\<lambda>v. v \<in> R) ws) = filter (\<lambda>v. v \<in> R - {w}) ws"
  by (induction ws) auto

lemma keep_first_append:
  "keep_first (us @ vs) = keep_first us @ keep_first (filter (\<lambda>v. v \<notin> set us) vs)"
proof (induction us arbitrary: vs rule: keep_first.induct)
  case 1
  then show ?case by simp
next
  case (2 w ws)
  have "filter (\<lambda>v. v \<notin> set (removeAll w ws)) (removeAll w vs) =
        filter (\<lambda>v. v \<notin> set (w # ws)) vs"
    by (induction vs) auto
  then show ?case using "2.IH" [of "removeAll w vs"] by simp
qed

text \<open>One loop of \<^verbatim>\<open>stableOrder\<close>, for any starting set and any list.\<close>

lemma erase_loop_eq:
  "erase_loop ws R acc = (R - set ws, acc @ keep_first (filter (\<lambda>v. v \<in> R) ws))"
proof (induction ws arbitrary: R acc)
  case Nil
  then show ?case by simp
next
  case (Cons w ws)
  show ?case
  proof (cases "w \<in> R")
    case True
    then show ?thesis
      using Cons.IH [of "R - {w}" "acc @ [w]"] by (auto simp: removeAll_filter_mem)
  next
    case False
    then show ?thesis using Cons.IH [of R acc] by auto
  qed
qed

lemma stableOrder_eq:
  "stableOrder reg g M =
     (keep_first (filter (\<lambda>w. w \<in> set M) (stored_order reg g) @ M),
      reg(g \<mapsto> keep_first (filter (\<lambda>w. w \<in> set M) (stored_order reg g) @ M)))"
proof -
  define stored where "stored = stored_order reg g"
  define r1 where "r1 = keep_first (filter (\<lambda>w. w \<in> set M) stored)"
  define r2 where "r2 = r1 @ keep_first (filter (\<lambda>v. v \<in> set M - set stored) M)"
  have e1: "erase_loop stored (set M) [] = (set M - set stored, r1)"
    by (simp add: erase_loop_eq r1_def)
  have e2: "erase_loop M (set M - set stored) r1 = (set M - set stored - set M, r2)"
    unfolding r2_def by (rule erase_loop_eq)
  have so: "stableOrder reg g M = (r2, reg(g \<mapsto> r2))"
    by (simp add: stableOrder_def stored_order_def [symmetric] stored_def [symmetric] e1 e2)
  have "filter (\<lambda>v. v \<in> set M - set stored) M
      = filter (\<lambda>v. v \<notin> set (filter (\<lambda>w. w \<in> set M) stored)) M"
    by (rule filter_cong) auto
  then have "r2 = keep_first (filter (\<lambda>w. w \<in> set M) stored @ M)"
    unfolding r2_def r1_def keep_first_append by (rule arg_cong)
  then show ?thesis using so by (simp add: stored_def)
qed

lemma stableOrder_snd: "snd (stableOrder reg g M) = reg(g \<mapsto> fst (stableOrder reg g M))"
  by (simp add: stableOrder_eq)

lemma stableOrder_set: "set (fst (stableOrder reg g M)) = set M"
  by (auto simp: stableOrder_eq)

lemma stableOrder_distinct: "distinct (fst (stableOrder reg g M))"
  by (simp add: stableOrder_eq)

lemma stableOrder_distinct_eq:
  assumes "distinct (stored_order reg g)" "distinct M"
  shows "fst (stableOrder reg g M) =
     filter (\<lambda>w. w \<in> set M) (stored_order reg g) @
     filter (\<lambda>w. w \<notin> set (stored_order reg g)) M"
proof -
  define stored where "stored = stored_order reg g"
  have f: "filter (\<lambda>v. v \<notin> set (filter (\<lambda>w. w \<in> set M) stored)) M
      = filter (\<lambda>w. w \<notin> set stored) M"
    by (rule filter_cong) auto
  have "keep_first (filter (\<lambda>w. w \<in> set M) stored @ M)
      = keep_first (filter (\<lambda>w. w \<in> set M) stored) @
        keep_first (filter (\<lambda>w. w \<notin> set stored) M)"
    unfolding keep_first_append f by (rule refl)
  also have "\<dots> = filter (\<lambda>w. w \<in> set M) stored @ filter (\<lambda>w. w \<notin> set stored) M"
    using assms by (simp add: keep_first_distinct stored_def)
  finally show ?thesis by (simp add: stableOrder_eq stored_def)
qed

text \<open>Reconciling again against the same members, in any enumeration order, changes nothing.\<close>

lemma stableOrder_again:
  assumes "set M' = set M"
  shows "stableOrder (snd (stableOrder reg g M)) g M' = stableOrder reg g M"
proof -
  define r where "r = keep_first (filter (\<lambda>w. w \<in> set M) (stored_order reg g) @ M)"
  have s: "set r = set M'" using assms by (auto simp: r_def)
  have d: "distinct r" by (simp add: r_def)
  have first: "stableOrder reg g M = (r, reg(g \<mapsto> r))"
    unfolding r_def by (rule stableOrder_eq)
  have st: "stored_order (reg(g \<mapsto> r)) g = r" by (simp add: stored_order_def)
  have f1: "filter (\<lambda>w. w \<in> set M') r = r" using s by simp
  have f2: "filter (\<lambda>v. v \<notin> set r) M' = []" using s by (simp add: filter_empty_conv)
  have "keep_first (filter (\<lambda>w. w \<in> set M') r @ M') = r"
    unfolding f1 keep_first_append f2 using d by (simp add: keep_first_distinct)
  then have "stableOrder (reg(g \<mapsto> r)) g M' = (r, reg(g \<mapsto> r))"
    using stableOrder_eq [of "reg(g \<mapsto> r)" g M'] by (simp add: st)
  then show ?thesis by (simp add: first)
qed

lemma tileWindows_again:
  assumes "set M' = set M"
  shows "tileWindows (fst (tileWindows reg g M W H l)) g M' W H l = tileWindows reg g M W H l"
proof (cases "M = []")
  case True
  then have "M' = []" using assms by simp
  then show ?thesis using True by (simp add: tileWindows_def)
next
  case False
  then have ne: "M' \<noteq> []" using assms by auto
  have reg1: "fst (tileWindows reg g M W H l) = snd (stableOrder reg g M)"
    using False by (simp add: tileWindows_def split_beta)
  show ?thesis
    unfolding reg1 using False ne stableOrder_again [OF assms, of reg g]
    by (simp add: tileWindows_def split_beta)
qed

lemma find_pos_le: "find_pos ws a \<le> length ws"
  by (induction ws) auto

lemma find_pos_end: "find_pos ws a = length ws \<longleftrightarrow> a \<notin> set ws"
  using find_pos_le [of _ a] by (induction ws) (auto simp: Suc_le_eq)

lemma find_pos_append: "a \<notin> set pre \<Longrightarrow> find_pos (pre @ a # rest) a = length pre"
  by (induction pre) auto

lemma find_pos_nth: "a \<in> set ws \<Longrightarrow> ws ! find_pos ws a = a"
  by (induction ws) auto

lemma find_pos_begin: "ws \<noteq> [] \<Longrightarrow> find_pos ws a = 0 \<longleftrightarrow> hd ws = a"
  by (cases ws) auto

lemma find_pos_last:
  assumes "distinct ws" "a \<in> set ws"
  shows "Suc (find_pos ws a) = length ws \<longleftrightarrow> last ws = a"
proof -
  obtain pre rest where ws: "ws = pre @ a # rest" and "a \<notin> set pre"
    using assms(2) by (meson split_list_first)
  then have p: "find_pos ws a = length pre" by (simp add: find_pos_append)
  have "a \<notin> set rest" using assms(1) ws by simp
  then have "last ws = a \<longleftrightarrow> rest = []" using ws by (cases rest rule: rev_cases) auto
  then show ?thesis using p ws by auto
qed

lemma iter_swap_next: "iter_swap (pre @ a # b # post) (length pre) (Suc (length pre)) = pre @ b # a # post"
  by (simp add: iter_swap_def list_update_append nth_append)

lemma iter_swap_prev: "iter_swap (pre @ b # a # post) (Suc (length pre)) (length pre) = pre @ a # b # post"
  by (simp add: iter_swap_def list_update_append nth_append)

lemma iter_swap_props:
  "i < length ws \<Longrightarrow> j < length ws \<Longrightarrow> set (iter_swap ws i j) = set ws \<and> distinct (iter_swap ws i j) = distinct ws"
  by (simp add: iter_swap_def)

lemma tileWindows_fst:
  "fst (tileWindows reg d ws W H l) =
     (if ws = [] then reg(d := None) else reg(d \<mapsto> fst (stableOrder reg d ws)))"
  by (simp add: tileWindows_def split_beta stableOrder_snd)

lemma moveActiveWindow_unfold:
  assumes "windows \<noteq> []"
  shows "moveActiveWindow reg d windows (Some a) cfg fwd windows2 W H =
    (let ordered = fst (stableOrder reg d windows); reg1 = reg(d \<mapsto> ordered) in
     if a \<notin> set ordered then (False, reg1, [])
     else if fwd then
       (if last ordered = a then (False, reg1, [])
        else (True, tileWindows (reg1(d \<mapsto> iter_swap ordered (find_pos ordered a) (Suc (find_pos ordered a))))
                 d windows2 W H (layoutForDesktop cfg d)))
     else
       (if hd ordered = a then (False, reg1, [])
        else (True, tileWindows (reg1(d \<mapsto> iter_swap ordered (find_pos ordered a) (find_pos ordered a - 1)))
                 d windows2 W H (layoutForDesktop cfg d))))"
proof -
  define ordered where "ordered = fst (stableOrder reg d windows)"
  have so: "stableOrder reg d windows = (ordered, reg(d \<mapsto> ordered))"
    by (simp add: ordered_def stableOrder_snd [symmetric])
  have dist: "distinct ordered" by (simp add: ordered_def stableOrder_distinct)
  have ne: "ordered \<noteq> []" using assms stableOrder_set [of reg d windows] by (auto simp: ordered_def)
  show ?thesis
  proof (cases "a \<in> set ordered")
    case False
    then show ?thesis
      using assms by (simp add: moveActiveWindow_def so ordered_def [symmetric] find_pos_end Let_def)
  next
    case True
    then have "find_pos ordered a \<noteq> length ordered" by (simp add: find_pos_end)
    then show ?thesis
      using assms True find_pos_last [OF dist True] find_pos_begin [OF ne, of a]
      by (simp add: moveActiveWindow_def so ordered_def [symmetric] split_beta Let_def)
  qed
qed

lemma order_inv_empty: "order_inv Map.empty"
  by (simp add: order_inv_def)

lemma order_inv_erase: "order_inv reg \<Longrightarrow> order_inv (reg(d := None))"
  by (simp add: order_inv_def)

lemma order_inv_store: "order_inv reg \<Longrightarrow> ws \<noteq> [] \<Longrightarrow> distinct ws \<Longrightarrow> order_inv (reg(d \<mapsto> ws))"
  by (simp add: order_inv_def)

lemma stableOrder_nonempty: "M \<noteq> [] \<Longrightarrow> fst (stableOrder reg g M) \<noteq> []"
  using stableOrder_set [of reg g M] by auto

lemma order_inv_tileWindows:
  assumes "order_inv reg"
  shows "order_inv (fst (tileWindows reg d ws W H l))"
  using assms
  by (simp add: tileWindows_fst order_inv_erase order_inv_store stableOrder_nonempty stableOrder_distinct)

lemma order_inv_iter_swap:
  assumes "ws \<noteq> []" "distinct ws" "i < length ws" "j < length ws"
  shows "iter_swap ws i j \<noteq> [] \<and> distinct (iter_swap ws i j)"
  using assms by (simp add: iter_swap_def)

lemma order_inv_moveActiveWindow:
  assumes "order_inv reg"
  shows "order_inv (fst (snd (moveActiveWindow reg d windows active cfg fwd windows2 W H)))"
proof (cases "windows = []")
  case True
  then show ?thesis using assms by (simp add: moveActiveWindow_def order_inv_erase)
next
  case ne: False
  define ordered where "ordered = fst (stableOrder reg d windows)"
  have o: "ordered \<noteq> []" "distinct ordered"
    using ne by (simp_all add: ordered_def stableOrder_nonempty stableOrder_distinct)
  have r1: "order_inv (reg(d \<mapsto> ordered))"
    using assms o by (simp add: order_inv_store)
  show ?thesis
  proof (cases active)
    case None
    then show ?thesis
      using ne r1 by (simp add: moveActiveWindow_def split_beta stableOrder_snd ordered_def)
  next
    case (Some a)
    show ?thesis
    proof (cases "a \<in> set ordered")
      case False
      then show ?thesis
        using Some r1 by (simp add: moveActiveWindow_unfold [OF ne] ordered_def [symmetric] Let_def)
    next
      case True
      then have lt: "find_pos ordered a < length ordered"
        using find_pos_le [of ordered a] find_pos_end [of ordered a] by simp
      have sw: "order_inv (reg(d \<mapsto> ordered, d \<mapsto> iter_swap ordered i j))"
        if "i < length ordered" "j < length ordered" for i j
        using assms order_inv_iter_swap [OF o that] by (simp add: order_inv_store)
      have nxt: "last ordered \<noteq> a \<Longrightarrow> Suc (find_pos ordered a) < length ordered"
        using lt find_pos_last [OF o(2) True] by auto
      have prv: "find_pos ordered a - 1 < length ordered"
        using lt by simp
      show ?thesis
        using Some True r1 sw [OF lt nxt] sw [OF lt prv]
        by (simp add: moveActiveWindow_unfold [OF ne] ordered_def [symmetric] Let_def
            order_inv_tileWindows)
    qed
  qed
qed

lemma order_inv_perform: "order_inv reg \<Longrightarrow> order_inv (perform cfg reg act)"
proof (cases act)
  case (Apply d ws W H)
  assume "order_inv reg"
  then show ?thesis using Apply by (simp add: order_inv_tileWindows)
next
  case (Command c d ws active ws2 W H)
  assume "order_inv reg"
  then show ?thesis using Command by (cases c) (simp_all add: order_inv_moveActiveWindow)
qed

lemma order_inv_foldl: "order_inv reg \<Longrightarrow> order_inv (foldl (perform cfg) reg actions)"
  by (induction actions arbitrary: reg) (simp_all add: order_inv_perform)

lemma order_inv_registry_after: "order_inv (registry_after cfg actions)"
  by (simp add: registry_after_def order_inv_foldl order_inv_empty)

lemma order_inv_stored: "order_inv reg \<Longrightarrow> distinct (stored_order reg g)"
  by (auto simp: order_inv_def stored_order_def split: option.splits)

section \<open>Claims about the group registry\<close>

text \<open>
  Claim C1. Every order the program has stored is free of repetitions (first conjunct),
  and for every such stored order and every duplicate-free membership list \<open>M\<close>,
  \<^verbatim>\<open>stableOrder\<close> returns the members of the stored order that are still in \<open>M\<close>, in
  their stored order, followed by the members of \<open>M\<close> that the stored order lacks, in
  the order of \<open>M\<close>, and stores that result for the desktop. With \<open>[A,B]\<close> stored,
  reconciling \<open>[A,B,C]\<close> gives \<open>[A,B,C]\<close>; with \<open>[A,B,C]\<close> stored, reconciling \<open>[A,C]\<close>
  gives \<open>[A,C]\<close>.
\<close>

theorem stableOrder_reconcile:
  "distinct (stored_order (registry_after cfg actions) g) \<and>
   (distinct (stored_order reg g) \<and> distinct M \<longrightarrow>
      stableOrder reg g M =
        (filter (\<lambda>w. w \<in> set M) (stored_order reg g) @
           filter (\<lambda>w. w \<notin> set (stored_order reg g)) M,
         reg(g \<mapsto> filter (\<lambda>w. w \<in> set M) (stored_order reg g) @
           filter (\<lambda>w. w \<notin> set (stored_order reg g)) M))) \<and>
   (distinct [a, b, c] \<and> reg g = Some [a, b] \<longrightarrow>
      stableOrder reg g [a, b, c] = ([a, b, c], reg(g \<mapsto> [a, b, c]))) \<and>
   (distinct [a, b, c] \<and> reg g = Some [a, b, c] \<longrightarrow>
      stableOrder reg g [a, c] = ([a, c], reg(g \<mapsto> [a, c])))"
proof -
  have reach: "distinct (stored_order (registry_after cfg actions) g)"
    by (simp add: order_inv_stored order_inv_registry_after)
  have gen: "stableOrder reg' g M' =
        (filter (\<lambda>w. w \<in> set M') (stored_order reg' g) @
           filter (\<lambda>w. w \<notin> set (stored_order reg' g)) M',
         reg'(g \<mapsto> filter (\<lambda>w. w \<in> set M') (stored_order reg' g) @
           filter (\<lambda>w. w \<notin> set (stored_order reg' g)) M'))"
    if "distinct (stored_order reg' g)" "distinct M'" for reg' M'
    using stableOrder_distinct_eq [OF that] stableOrder_snd [of reg' g M']
    by (simp add: prod_eq_iff)
  have ex1: "stableOrder reg g [a, b, c] = ([a, b, c], reg(g \<mapsto> [a, b, c]))"
    if "distinct [a, b, c]" "reg g = Some [a, b]"
  proof -
    have st: "stored_order reg g = [a, b]" using that by (simp add: stored_order_def)
    show ?thesis using gen [of reg "[a, b, c]"] that st by auto
  qed
  have ex2: "stableOrder reg g [a, c] = ([a, c], reg(g \<mapsto> [a, c]))"
    if "distinct [a, b, c]" "reg g = Some [a, b, c]"
  proof -
    have st: "stored_order reg g = [a, b, c]" using that by (simp add: stored_order_def)
    show ?thesis using gen [of reg "[a, c]"] that st by auto
  qed
  from reach gen ex1 ex2 show ?thesis by blast
qed

theorem stableOrder_reconcile_witness:
  "distinct [1, 2, 3 :: nat] \<and>
   stableOrder (Map.empty(0 \<mapsto> [1, 2])) 0 [1, 2, 3] = ([1, 2, 3], Map.empty(0 \<mapsto> [1, 2, 3])) \<and>
   stableOrder (Map.empty(0 \<mapsto> [1, 2, 3])) 0 [1, 3] = ([1, 3], Map.empty(0 \<mapsto> [1, 3])) \<and>
   distinct [3, 1, 2 :: nat] \<and> distinct [2, 4, 3 :: nat] \<and>
   stableOrder (Map.empty(0 \<mapsto> [3, 1, 2])) 0 [2, 4, 3] = ([3, 2, 4], Map.empty(0 \<mapsto> [3, 2, 4]))"
  using stableOrder_reconcile [of _ _ 0 "Map.empty(0 \<mapsto> [1, 2])" _ 1 2 3]
    stableOrder_reconcile [of _ _ 0 "Map.empty(0 \<mapsto> [1, 2, 3])" _ 1 2 3]
    stableOrder_reconcile [of _ _ 0 "Map.empty(0 \<mapsto> [3, 1, 2])" "[2, 4, 3]"]
  by (simp add: stored_order_def)

text \<open>
  Claim C10. For every registry and every observed list, with or without repetitions,
  the order that \<^verbatim>\<open>stableOrder\<close> returns and stores has no repetition and has exactly
  the members of the observed list; it is the list of the surviving stored members
  followed by the observed list, each window kept at its first occurrence only.
\<close>

theorem stableOrder_no_duplicates:
  "distinct (fst (stableOrder reg g M)) \<and>
   set (fst (stableOrder reg g M)) = set M \<and>
   snd (stableOrder reg g M) = reg(g \<mapsto> fst (stableOrder reg g M)) \<and>
   fst (stableOrder reg g M) =
     keep_first (filter (\<lambda>w. w \<in> set M) (stored_order reg g) @ M) \<and>
   fst (stableOrder (Map.empty(0 \<mapsto> [7, 7, 4])) 0 [5, 7, 5, 7, 9]) = [7, 5, 9]"
proof -
  have "fst (stableOrder (Map.empty(0 \<mapsto> [7, 7, 4])) 0 [5, 7, 5, 7, 9]) = [7, 5, 9]"
    by (simp add: stableOrder_def)
  moreover have "fst (stableOrder reg g M) =
     keep_first (filter (\<lambda>w. w \<in> set M) (stored_order reg g) @ M)"
    by (simp add: stableOrder_eq)
  ultimately show ?thesis
    using stableOrder_distinct [of reg g M] stableOrder_set [of reg g M]
      stableOrder_snd [of reg g M]
    by blast
qed

text \<open>
  Claim C8. Reconciling twice in a row against the same membership list returns the same
  order and leaves the same registry as reconciling once, and applying a desktop twice
  in a row with the same screen size and layout sends the same rectangles to the same
  windows; this also holds when the second pass sees the same members enumerated in
  another order.
\<close>

theorem reconcile_recompute_idempotent:
  "stableOrder (snd (stableOrder reg g M)) g M = stableOrder reg g M \<and>
   tileWindows (fst (tileWindows reg g M W H l)) g M W H l = tileWindows reg g M W H l \<and>
   (set M' = set M \<longrightarrow>
      stableOrder (snd (stableOrder reg g M)) g M' = stableOrder reg g M \<and>
      tileWindows (fst (tileWindows reg g M W H l)) g M' W H l = tileWindows reg g M W H l)"
  by (simp add: stableOrder_again tileWindows_again)

theorem reconcile_recompute_idempotent_witness:
  "set [3, 1, 2 :: nat] = set [1, 2, 3] \<and>
   tileWindows (fst (tileWindows Map.empty 1 [1, 2, 3] 1920 1080 no_margins)) 1 [3, 1, 2] 1920 1080 no_margins =
     (Map.empty(1 \<mapsto> [1, 2, 3]),
      [(1, \<lparr>x = 0, y = 0, width = 640, height = 1080\<rparr>),
       (2, \<lparr>x = 640, y = 0, width = 640, height = 1080\<rparr>),
       (3, \<lparr>x = 1280, y = 0, width = 640, height = 1080\<rparr>)])"
proof -
  have s: "set [3, 1, 2 :: nat] = set [1, 2, 3]" by auto
  have c: "computePositions 3 1920 1080 no_margins =
      [\<lparr>x = 0, y = 0, width = 640, height = 1080\<rparr>,
       \<lparr>x = 640, y = 0, width = 640, height = 1080\<rparr>,
       \<lparr>x = 1280, y = 0, width = 640, height = 1080\<rparr>]"
    by code_simp
  have "tileWindows Map.empty 1 [1, 2, 3] 1920 1080 no_margins =
     (Map.empty(1 \<mapsto> [1, 2, 3]),
      [(1, \<lparr>x = 0, y = 0, width = 640, height = 1080\<rparr>),
       (2, \<lparr>x = 640, y = 0, width = 640, height = 1080\<rparr>),
       (3, \<lparr>x = 1280, y = 0, width = 640, height = 1080\<rparr>)])"
    by (simp add: tileWindows_def stableOrder_def c)
  then show ?thesis
    using s reconcile_recompute_idempotent [of Map.empty 1 "[1, 2, 3]" 1920 1080 no_margins "[3, 1, 2]"]
    by simp
qed

text \<open>
  Claim C7. When \<^verbatim>\<open>tileWindows\<close> or \<^verbatim>\<open>moveActiveWindow\<close> finds no window on the
  desktop, the registry has no entry for that desktop afterwards; and no registry that a
  run of the program reaches holds an empty order.
\<close>

theorem empty_membership_discards_order:
  "fst (tileWindows reg d [] W H l) d = None \<and>
   fst (snd (moveActiveWindow reg d [] active cfg forward windows2 W H)) d = None \<and>
   (shouldTile d cfg \<longrightarrow>
      perform cfg reg (Apply d [] W H) d = None \<and>
      perform cfg reg (Command c d [] active windows2 W H) d = None) \<and>
   (registry_after cfg actions g = Some ws \<longrightarrow> ws \<noteq> [])"
proof -
  have t: "fst (tileWindows reg d [] W H l) d = None" for l
    by (simp add: tileWindows_def)
  have m: "fst (snd (moveActiveWindow reg d [] active cfg fwd windows2 W H)) d = None" for fwd
    by (simp add: moveActiveWindow_def)
  have p: "shouldTile d cfg \<longrightarrow> perform cfg reg (Apply d [] W H) d = None \<and>
      perform cfg reg (Command c d [] active windows2 W H) d = None"
    using t m by (cases c) simp_all
  have r: "registry_after cfg actions g = Some ws \<longrightarrow> ws \<noteq> []"
    using order_inv_registry_after [of cfg actions] by (auto simp: order_inv_def)
  from t m p r show ?thesis by blast
qed

theorem empty_membership_discards_order_witness:
  "shouldTile 1 tile_1_2_3 \<and>
   registry_after tile_1_2_3 [Apply 1 [10, 20] 1920 1080] 1 = Some [10, 20] \<and>
   [10, 20] \<noteq> ([] :: window list) \<and>
   perform tile_1_2_3 (registry_after tile_1_2_3 [Apply 1 [10, 20] 1920 1080])
     (Apply 1 [] 1920 1080) 1 = None \<and>
   perform tile_1_2_3 (registry_after tile_1_2_3 [Apply 1 [10, 20] 1920 1080])
     (Command MoveLeft 1 [] (Some 10) [] 1920 1080) 1 = None"
proof -
  have s: "shouldTile 1 tile_1_2_3" by (simp add: shouldTile_def)
  have r: "registry_after tile_1_2_3 [Apply 1 [10, 20] 1920 1080] 1 = Some [10, 20]"
    by (simp add: registry_after_def shouldTile_def tileWindows_def stableOrder_def split_beta)
  show ?thesis
    using s r
      empty_membership_discards_order [of "registry_after tile_1_2_3 [Apply 1 [10, 20] 1920 1080]"
        1 1920 1080 _ "Some 10" tile_1_2_3 _ "[]" MoveLeft "[Apply 1 [10, 20] 1920 1080]" 1 "[10, 20]"]
    by simp
qed

lemma stableOrder_same_members:
  assumes "reg g = Some ws" "distinct ws" "set M = set ws"
  shows "stableOrder reg g M = (ws, reg)"
proof -
  have st: "stored_order reg g = ws" using assms(1) by (simp add: stored_order_def)
  have f1: "filter (\<lambda>w. w \<in> set M) ws = ws" using assms(3) by simp
  have f2: "filter (\<lambda>v. v \<notin> set ws) M = []" using assms(3) by (simp add: filter_empty_conv)
  have "keep_first (filter (\<lambda>w. w \<in> set M) ws @ M) = ws"
    unfolding f1 keep_first_append f2 using assms(2) by (simp add: keep_first_distinct)
  moreover have "reg(g \<mapsto> ws) = reg" using assms(1) by (simp add: map_upd_triv)
  ultimately show ?thesis by (simp add: stableOrder_eq st)
qed

lemma tileWindows_same_members:
  assumes "distinct ws" "ws \<noteq> []" "set M = set ws"
  shows "fst (tileWindows (reg(g \<mapsto> ws)) g M W H l) = reg(g \<mapsto> ws)"
proof -
  have "M \<noteq> []" using assms by auto
  moreover have "stableOrder (reg(g \<mapsto> ws)) g M = (ws, reg(g \<mapsto> ws))"
    using assms by (simp add: stableOrder_same_members)
  ultimately show ?thesis by (simp add: tileWindows_def)
qed

lemma split_after:
  assumes "distinct ws" "a \<in> set ws" "last ws \<noteq> a"
  shows "\<exists>pre b post. ws = pre @ a # b # post"
proof -
  obtain pre rest where ws: "ws = pre @ a # rest" using assms(2) by (meson split_list)
  have "rest \<noteq> []" using assms(3) ws by auto
  then obtain b post where "rest = b # post" by (cases rest) auto
  then show ?thesis using ws by blast
qed

lemma split_before:
  assumes "a \<in> set ws" "hd ws \<noteq> a"
  shows "\<exists>pre b post. ws = pre @ b # a # post"
proof -
  obtain front post where ws: "ws = front @ a # post" using assms(1) by (meson split_list)
  have "front \<noteq> []" using assms(2) ws by (cases front) auto
  then obtain pre b where "front = pre @ [b]" by (cases front rule: rev_cases) auto
  then show ?thesis using ws by auto
qed

lemma move_forward:
  assumes ne: "windows \<noteq> []"
    and ord: "fst (stableOrder reg d windows) = pre @ a # b # post"
  shows "moveActiveWindow reg d windows (Some a) cfg True windows2 W H =
     (True, tileWindows ((snd (stableOrder reg d windows))(d \<mapsto> pre @ b # a # post))
        d windows2 W H (layoutForDesktop cfg d))"
proof -
  have dist: "distinct (pre @ a # b # post)"
    using stableOrder_distinct [of reg d windows] ord by simp
  then have pos: "find_pos (pre @ a # b # post) a = length pre"
    by (simp add: find_pos_append)
  have "last (pre @ a # b # post) \<noteq> a" using dist by auto
  then show ?thesis
    using dist by (simp add: moveActiveWindow_unfold [OF ne] ord Let_def pos iter_swap_next stableOrder_snd)
qed

lemma move_backward:
  assumes ne: "windows \<noteq> []"
    and ord: "fst (stableOrder reg d windows) = pre @ b # a # post"
  shows "moveActiveWindow reg d windows (Some a) cfg False windows2 W H =
     (True, tileWindows ((snd (stableOrder reg d windows))(d \<mapsto> pre @ a # b # post))
        d windows2 W H (layoutForDesktop cfg d))"
proof -
  have dist: "distinct (pre @ b # a # post)"
    using stableOrder_distinct [of reg d windows] ord by simp
  then have "a \<notin> set (pre @ [b])" by auto
  then have "find_pos ((pre @ [b]) @ a # post) a = length (pre @ [b])"
    by (rule find_pos_append)
  then have pos: "find_pos (pre @ b # a # post) a = Suc (length pre)" by simp
  have "hd (pre @ b # a # post) \<noteq> a" using dist by (cases pre) auto
  then show ?thesis
    using dist by (simp add: moveActiveWindow_unfold [OF ne] ord Let_def pos iter_swap_prev stableOrder_snd)
qed

text \<open>
  Claim C4. \<^verbatim>\<open>moveActiveWindow\<close> looks the window up in the group's current Order,
  which is the order \<^verbatim>\<open>stableOrder\<close> returns (and stores) for the live membership at
  the time of the request; the \<^verbatim>\<open>bool\<close> it returns is \<^verbatim>\<open>false\<close> for a no-op. If
  the window is absent from that order, or is first and the move is towards the start, or
  is last and the move is towards the end, the result is a no-op and the registry holds
  that order unchanged (with no live window at all, there is no order and the entry is
  removed). Otherwise the window has a neighbour in the requested direction, the two are
  exchanged, the new order is stored, and \<^verbatim>\<open>tileWindows\<close> runs on the registry that
  holds it; when the membership is unchanged the new order is what the registry holds
  afterwards and what the next reconciliation returns.
\<close>

theorem moveActiveWindow_move:
  "let ordered = fst (stableOrder reg d windows);
       reg1 = snd (stableOrder reg d windows);
       layout = layoutForDesktop cfg d;
       move = (\<lambda>forward. moveActiveWindow reg d windows (Some a) cfg forward windows2 W H)
   in (windows = [] \<longrightarrow> move forward = (False, reg(d := None), [])) \<and>
      (windows \<noteq> [] \<longrightarrow>
         reg1 d = Some ordered \<and>
         (a \<notin> set ordered \<longrightarrow> move forward = (False, reg1, [])) \<and>
         (hd ordered = a \<longrightarrow> move False = (False, reg1, [])) \<and>
         (last ordered = a \<longrightarrow> move True = (False, reg1, [])) \<and>
         (ordered = pre @ a # b # post \<longrightarrow>
            move True =
              (True, tileWindows (reg1(d \<mapsto> pre @ b # a # post)) d windows2 W H layout) \<and>
            (set windows2 = set windows \<longrightarrow>
               fst (snd (move True)) d = Some (pre @ b # a # post) \<and>
               (set M = set windows \<longrightarrow>
                  fst (stableOrder (fst (snd (move True))) d M) = pre @ b # a # post))) \<and>
         (ordered = pre @ b # a # post \<longrightarrow>
            move False =
              (True, tileWindows (reg1(d \<mapsto> pre @ a # b # post)) d windows2 W H layout) \<and>
            (set windows2 = set windows \<longrightarrow>
               fst (snd (move False)) d = Some (pre @ a # b # post) \<and>
               (set M = set windows \<longrightarrow>
                  fst (stableOrder (fst (snd (move False))) d M) = pre @ a # b # post))) \<and>
         (a \<in> set ordered \<and> last ordered \<noteq> a \<longrightarrow> (\<exists>p n q. ordered = p @ a # n # q)) \<and>
         (a \<in> set ordered \<and> hd ordered \<noteq> a \<longrightarrow> (\<exists>p n q. ordered = p @ n # a # q)))"
proof -
  define ordered where "ordered = fst (stableOrder reg d windows)"
  define reg1 where "reg1 = snd (stableOrder reg d windows)"
  define layout where "layout = layoutForDesktop cfg d"
  define move where
    "move = (\<lambda>forward. moveActiveWindow reg d windows (Some a) cfg forward windows2 W H)"
  have reg1_eq: "reg1 = reg(d \<mapsto> ordered)"
    by (simp add: reg1_def ordered_def stableOrder_snd)
  have dist: "distinct ordered"
    by (simp add: ordered_def stableOrder_distinct)
  have mem: "set ordered = set windows"
    by (simp add: ordered_def stableOrder_set)
  have empty: "windows = [] \<longrightarrow> move forward = (False, reg(d := None), [])"
    by (simp add: move_def moveActiveWindow_def)
  have stored: "reg1 d = Some ordered"
    by (simp add: reg1_eq)
  have unfold: "windows \<noteq> [] \<Longrightarrow> move fwd =
     (if a \<notin> set ordered then (False, reg1, [])
      else if fwd then
        (if last ordered = a then (False, reg1, [])
         else (True, tileWindows
                 (reg1(d \<mapsto> iter_swap ordered (find_pos ordered a) (Suc (find_pos ordered a))))
                 d windows2 W H layout))
      else
        (if hd ordered = a then (False, reg1, [])
         else (True, tileWindows
                 (reg1(d \<mapsto> iter_swap ordered (find_pos ordered a) (find_pos ordered a - 1)))
                 d windows2 W H layout)))" for fwd
    unfolding move_def reg1_eq ordered_def layout_def
    using moveActiveWindow_unfold [of windows reg d a cfg fwd windows2 W H]
    by (simp add: Let_def)
  have absent: "windows \<noteq> [] \<longrightarrow> a \<notin> set ordered \<longrightarrow> move forward = (False, reg1, [])"
    by (simp add: unfold)
  have first: "windows \<noteq> [] \<longrightarrow> hd ordered = a \<longrightarrow> move False = (False, reg1, [])"
    by (simp add: unfold)
  have last: "windows \<noteq> [] \<longrightarrow> last ordered = a \<longrightarrow> move True = (False, reg1, [])"
    by (simp add: unfold)
  have fwd: "windows \<noteq> [] \<longrightarrow> ordered = pre @ a # b # post \<longrightarrow>
      move True = (True, tileWindows (reg1(d \<mapsto> pre @ b # a # post)) d windows2 W H layout)"
    unfolding move_def reg1_def ordered_def layout_def
    using move_forward [of windows reg d pre a b post cfg windows2 W H] by simp
  have bwd: "windows \<noteq> [] \<longrightarrow> ordered = pre @ b # a # post \<longrightarrow>
      move False = (True, tileWindows (reg1(d \<mapsto> pre @ a # b # post)) d windows2 W H layout)"
    unfolding move_def reg1_def ordered_def layout_def
    using move_backward [of windows reg d pre b a post cfg windows2 W H] by simp
  have keep: "fst (tileWindows (reg1(d \<mapsto> new)) d windows2 W H layout) d = Some new \<and>
      (set M = set windows \<longrightarrow>
         fst (stableOrder (fst (tileWindows (reg1(d \<mapsto> new)) d windows2 W H layout)) d M) = new)"
    if "distinct new" "set new = set windows" "set windows2 = set windows" "windows \<noteq> []" for new
  proof -
    have n: "new \<noteq> []" using that by auto
    have t: "fst (tileWindows (reg1(d \<mapsto> new)) d windows2 W H layout) = reg1(d \<mapsto> new)"
      using that n by (simp add: tileWindows_same_members)
    have "set M = set windows \<Longrightarrow> stableOrder (reg1(d \<mapsto> new)) d M = (new, reg1(d \<mapsto> new))"
      using that by (simp add: stableOrder_same_members)
    then show ?thesis by (simp add: t)
  qed
  have fwd_keep: "windows \<noteq> [] \<longrightarrow> ordered = pre @ a # b # post \<longrightarrow> set windows2 = set windows \<longrightarrow>
      fst (snd (move True)) d = Some (pre @ b # a # post) \<and>
      (set M = set windows \<longrightarrow> fst (stableOrder (fst (snd (move True))) d M) = pre @ b # a # post)"
  proof (intro impI)
    assume a1: "windows \<noteq> []" and a2: "ordered = pre @ a # b # post"
      and a3: "set windows2 = set windows"
    have "distinct (pre @ a # b # post)" using dist unfolding a2 .
    then have d': "distinct (pre @ b # a # post)" by auto
    have "set (pre @ a # b # post) = set windows" using mem unfolding a2 .
    moreover have "set (pre @ b # a # post) = set (pre @ a # b # post)" by auto
    ultimately have s': "set (pre @ b # a # post) = set windows" by (rule ssubst [rotated])
    have mv: "move True =
        (True, tileWindows (reg1(d \<mapsto> pre @ b # a # post)) d windows2 W H layout)"
      using fwd a1 a2 by blast
    show "fst (snd (move True)) d = Some (pre @ b # a # post) \<and>
      (set M = set windows \<longrightarrow> fst (stableOrder (fst (snd (move True))) d M) = pre @ b # a # post)"
      unfolding mv snd_conv using keep [OF d' s' a3 a1] .
  qed
  have bwd_keep: "windows \<noteq> [] \<longrightarrow> ordered = pre @ b # a # post \<longrightarrow> set windows2 = set windows \<longrightarrow>
      fst (snd (move False)) d = Some (pre @ a # b # post) \<and>
      (set M = set windows \<longrightarrow> fst (stableOrder (fst (snd (move False))) d M) = pre @ a # b # post)"
  proof (intro impI)
    assume a1: "windows \<noteq> []" and a2: "ordered = pre @ b # a # post"
      and a3: "set windows2 = set windows"
    have "distinct (pre @ b # a # post)" using dist unfolding a2 .
    then have d': "distinct (pre @ a # b # post)" by auto
    have "set (pre @ b # a # post) = set windows" using mem unfolding a2 .
    moreover have "set (pre @ a # b # post) = set (pre @ b # a # post)" by auto
    ultimately have s': "set (pre @ a # b # post) = set windows" by (rule ssubst [rotated])
    have mv: "move False =
        (True, tileWindows (reg1(d \<mapsto> pre @ a # b # post)) d windows2 W H layout)"
      using bwd a1 a2 by blast
    show "fst (snd (move False)) d = Some (pre @ a # b # post) \<and>
      (set M = set windows \<longrightarrow> fst (stableOrder (fst (snd (move False))) d M) = pre @ a # b # post)"
      unfolding mv snd_conv using keep [OF d' s' a3 a1] .
  qed
  have ex_fwd: "a \<in> set ordered \<and> last ordered \<noteq> a \<longrightarrow> (\<exists>p n q. ordered = p @ a # n # q)"
    using split_after [OF dist, of a] by blast
  have ex_bwd: "a \<in> set ordered \<and> hd ordered \<noteq> a \<longrightarrow> (\<exists>p n q. ordered = p @ n # a # q)"
    using split_before [of a ordered] by blast
  have "(windows = [] \<longrightarrow> move forward = (False, reg(d := None), [])) \<and>
      (windows \<noteq> [] \<longrightarrow>
         reg1 d = Some ordered \<and>
         (a \<notin> set ordered \<longrightarrow> move forward = (False, reg1, [])) \<and>
         (hd ordered = a \<longrightarrow> move False = (False, reg1, [])) \<and>
         (last ordered = a \<longrightarrow> move True = (False, reg1, [])) \<and>
         (ordered = pre @ a # b # post \<longrightarrow>
            move True =
              (True, tileWindows (reg1(d \<mapsto> pre @ b # a # post)) d windows2 W H layout) \<and>
            (set windows2 = set windows \<longrightarrow>
               fst (snd (move True)) d = Some (pre @ b # a # post) \<and>
               (set M = set windows \<longrightarrow>
                  fst (stableOrder (fst (snd (move True))) d M) = pre @ b # a # post))) \<and>
         (ordered = pre @ b # a # post \<longrightarrow>
            move False =
              (True, tileWindows (reg1(d \<mapsto> pre @ a # b # post)) d windows2 W H layout) \<and>
            (set windows2 = set windows \<longrightarrow>
               fst (snd (move False)) d = Some (pre @ a # b # post) \<and>
               (set M = set windows \<longrightarrow>
                  fst (stableOrder (fst (snd (move False))) d M) = pre @ a # b # post))) \<and>
         (a \<in> set ordered \<and> last ordered \<noteq> a \<longrightarrow> (\<exists>p n q. ordered = p @ a # n # q)) \<and>
         (a \<in> set ordered \<and> hd ordered \<noteq> a \<longrightarrow> (\<exists>p n q. ordered = p @ n # a # q)))"
  proof (intro conjI impI)
    show "windows = [] \<Longrightarrow> move forward = (False, reg(d := None), [])"
      using empty by blast
    show "reg1 d = Some ordered" by (rule stored)
    show "windows \<noteq> [] \<Longrightarrow> a \<notin> set ordered \<Longrightarrow> move forward = (False, reg1, [])"
      using absent by blast
    show "windows \<noteq> [] \<Longrightarrow> hd ordered = a \<Longrightarrow> move False = (False, reg1, [])"
      using first by blast
    show "windows \<noteq> [] \<Longrightarrow> last ordered = a \<Longrightarrow> move True = (False, reg1, [])"
      using last by blast
    show "windows \<noteq> [] \<Longrightarrow> ordered = pre @ a # b # post \<Longrightarrow> move True =
        (True, tileWindows (reg1(d \<mapsto> pre @ b # a # post)) d windows2 W H layout)"
      using fwd by blast
    show "windows \<noteq> [] \<Longrightarrow> ordered = pre @ a # b # post \<Longrightarrow> set windows2 = set windows \<Longrightarrow>
        fst (snd (move True)) d = Some (pre @ b # a # post)"
      using fwd_keep by blast
    show "windows \<noteq> [] \<Longrightarrow> ordered = pre @ a # b # post \<Longrightarrow> set windows2 = set windows \<Longrightarrow>
        set M = set windows \<Longrightarrow> fst (stableOrder (fst (snd (move True))) d M) = pre @ b # a # post"
      using fwd_keep by blast
    show "windows \<noteq> [] \<Longrightarrow> ordered = pre @ b # a # post \<Longrightarrow> move False =
        (True, tileWindows (reg1(d \<mapsto> pre @ a # b # post)) d windows2 W H layout)"
      using bwd by blast
    show "windows \<noteq> [] \<Longrightarrow> ordered = pre @ b # a # post \<Longrightarrow> set windows2 = set windows \<Longrightarrow>
        fst (snd (move False)) d = Some (pre @ a # b # post)"
      using bwd_keep by blast
    show "windows \<noteq> [] \<Longrightarrow> ordered = pre @ b # a # post \<Longrightarrow> set windows2 = set windows \<Longrightarrow>
        set M = set windows \<Longrightarrow> fst (stableOrder (fst (snd (move False))) d M) = pre @ a # b # post"
      using bwd_keep by blast
    show "windows \<noteq> [] \<Longrightarrow> a \<in> set ordered \<and> last ordered \<noteq> a \<Longrightarrow> \<exists>p n q. ordered = p @ a # n # q"
      using ex_fwd by blast
    show "windows \<noteq> [] \<Longrightarrow> a \<in> set ordered \<and> hd ordered \<noteq> a \<Longrightarrow> \<exists>p n q. ordered = p @ n # a # q"
      using ex_bwd by blast
  qed
  then show ?thesis
    unfolding ordered_def reg1_def layout_def move_def Let_def .
qed

theorem moveActiveWindow_move_witness:
  "[30, 20, 10] \<noteq> ([] :: window list) \<and>
   fst (stableOrder (Map.empty(2 \<mapsto> [10, 20, 30])) 2 [30, 20, 10]) = [10] @ 20 # 30 # [] \<and>
   moveActiveWindow (Map.empty(2 \<mapsto> [10, 20, 30])) 2 [30, 20, 10] (Some 20) tile_1_2_3 True
       [30, 20, 10] 1920 1080 =
     (True, tileWindows (Map.empty(2 \<mapsto> [10, 30, 20])) 2 [30, 20, 10] 1920 1080 no_margins) \<and>
   fst (snd (moveActiveWindow (Map.empty(2 \<mapsto> [10, 20, 30])) 2 [30, 20, 10] (Some 20) tile_1_2_3 True
       [30, 20, 10] 1920 1080)) 2 = Some [10, 30, 20] \<and>
   moveActiveWindow (Map.empty(2 \<mapsto> [10, 20, 30])) 2 [30, 20, 10] (Some 10) tile_1_2_3 False
       [30, 20, 10] 1920 1080 = (False, Map.empty(2 \<mapsto> [10, 20, 30]), []) \<and>
   moveActiveWindow (Map.empty(2 \<mapsto> [10, 20, 30])) 2 [30, 20, 10] (Some 30) tile_1_2_3 True
       [30, 20, 10] 1920 1080 = (False, Map.empty(2 \<mapsto> [10, 20, 30]), []) \<and>
   moveActiveWindow (Map.empty(2 \<mapsto> [10, 20, 30])) 2 [30, 20, 10] (Some 99) tile_1_2_3 True
       [30, 20, 10] 1920 1080 = (False, Map.empty(2 \<mapsto> [10, 20, 30]), [])"
proof -
  let ?R = "Map.empty(2 \<mapsto> [10, 20, 30 :: window])"
  let ?W = "[30, 20, 10 :: window]"
  let ?move = "\<lambda>a forward. moveActiveWindow ?R 2 ?W (Some a) tile_1_2_3 forward ?W 1920 1080"
  have so: "stableOrder ?R 2 ?W = ([10, 20, 30], ?R)"
    by (simp add: stableOrder_def)
  have ne: "?W \<noteq> []" by simp
  have dec: "[10, 20, 30] = [10] @ 20 # 30 # ([] :: window list)" by simp
  note swap = moveActiveWindow_move [of ?R 2 ?W tile_1_2_3 20 ?W 1920 1080 True "[10]" 30 "[]"
      "[10, 20, 30]", unfolded Let_def so fst_conv snd_conv]
  have c1: "fst (stableOrder ?R 2 ?W) = [10] @ 20 # 30 # []"
    by (simp add: so)
  have "?move 20 True =
      (True, tileWindows (?R(2 \<mapsto> [10] @ 30 # 20 # [])) 2 ?W 1920 1080
         (layoutForDesktop tile_1_2_3 2))"
    using ne dec swap by blast
  then have c2: "?move 20 True =
      (True, tileWindows (Map.empty(2 \<mapsto> [10, 30, 20])) 2 ?W 1920 1080 no_margins)"
    by (simp add: layoutForDesktop_def)
  have "fst (snd (?move 20 True)) 2 = Some ([10] @ 30 # 20 # [])"
    using ne dec swap by blast
  then have c3: "fst (snd (?move 20 True)) 2 = Some [10, 30, 20]"
    by simp
  have c4: "?move 10 False = (False, ?R, [])"
  proof -
    have "hd [10, 20, 30 :: window] = 10" by simp
    then show ?thesis
      using ne
        moveActiveWindow_move [of ?R 2 ?W tile_1_2_3 10 ?W 1920 1080 False,
          unfolded Let_def so fst_conv snd_conv]
      by blast
  qed
  have c5: "?move 30 True = (False, ?R, [])"
  proof -
    have "last [10, 20, 30 :: window] = 30" by simp
    then show ?thesis
      using ne
        moveActiveWindow_move [of ?R 2 ?W tile_1_2_3 30 ?W 1920 1080 True,
          unfolded Let_def so fst_conv snd_conv]
      by blast
  qed
  have c6: "?move 99 True = (False, ?R, [])"
  proof -
    have "99 \<notin> set [10, 20, 30 :: window]" by simp
    then show ?thesis
      using ne
        moveActiveWindow_move [of ?R 2 ?W tile_1_2_3 99 ?W 1920 1080 True,
          unfolded Let_def so fst_conv snd_conv]
      by blast
  qed
  from ne c1 c2 c3 c4 c5 c6 show ?thesis by (intro conjI)
qed

section \<open>Claims about the tiled set\<close>

lemma fold_insert_set: "fold insert ws A = set ws \<union> A"
  by (induction ws arbitrary: A) auto

lemma defaultTiledDesktops_eq:
  "defaultTiledDesktops total_opt =
     (case total_opt of None \<Rightarrow> {0} | Some n \<Rightarrow> if n \<le> 1 then {0} else {1..<n})"
  by (simp add: defaultTiledDesktops_def fold_insert_set split: option.splits)

text \<open>
  Claim C6, as amended. When the configured tiled set is empty, \<^verbatim>\<open>main\<close> replaces it
  before any run. If the window manager reports \<open>n \<ge> 2\<close> desktops, the groups tiled
  are exactly \<open>1, \<dots>, n - 1\<close>: among the existing groups, all but group 0. If it
  reports at most one desktop, or no count at all, the only group tiled is group 0. The
  test \<^verbatim>\<open>shouldTile\<close> by itself accepts every group while the set is empty.
\<close>

theorem default_tiled_groups:
  "tiledDesktops cfg = {} \<longrightarrow>
     shouldTile g cfg \<and>
     (2 \<le> n \<longrightarrow>
        (shouldTile g (main_tiledDesktops cfg (Some n)) \<longleftrightarrow> g \<noteq> 0 \<and> g < n)) \<and>
     (n \<le> 1 \<longrightarrow> (shouldTile g (main_tiledDesktops cfg (Some n)) \<longleftrightarrow> g = 0)) \<and>
     (shouldTile g (main_tiledDesktops cfg None) \<longleftrightarrow> g = 0)"
proof (intro impI conjI)
  assume e: "tiledDesktops cfg = {}"
  show "shouldTile g cfg" using e by (simp add: shouldTile_def)
  show "shouldTile g (main_tiledDesktops cfg None) \<longleftrightarrow> g = 0"
    using e by (simp add: shouldTile_def main_tiledDesktops_def defaultTiledDesktops_eq)
  show "shouldTile g (main_tiledDesktops cfg (Some n)) \<longleftrightarrow> g = 0" if "n \<le> 1"
    using e that by (simp add: shouldTile_def main_tiledDesktops_def defaultTiledDesktops_eq)
  show "shouldTile g (main_tiledDesktops cfg (Some n)) \<longleftrightarrow> g \<noteq> 0 \<and> g < n" if "2 \<le> n"
  proof -
    have "{1..<n} \<noteq> {}" using that by simp
    then show ?thesis
      using e that by (auto simp: shouldTile_def main_tiledDesktops_def defaultTiledDesktops_eq)
  qed
qed

theorem default_tiled_groups_witness:
  "tiledDesktops tile_unset = {} \<and> (2::nat) \<le> 4 \<and> (1::nat) \<le> 1 \<and>
   shouldTile 2 (main_tiledDesktops tile_unset (Some 4)) \<and>
   \<not> shouldTile 0 (main_tiledDesktops tile_unset (Some 4)) \<and>
   \<not> shouldTile 4 (main_tiledDesktops tile_unset (Some 4)) \<and>
   shouldTile 0 (main_tiledDesktops tile_unset (Some 1)) \<and>
   \<not> shouldTile 2 (main_tiledDesktops tile_unset None)"
  using default_tiled_groups [of tile_unset 2 4] default_tiled_groups [of tile_unset 0 4]
    default_tiled_groups [of tile_unset 4 4] default_tiled_groups [of tile_unset 0 1]
    default_tiled_groups [of tile_unset 2]
  by simp

text \<open>
  Claim C6 as stated fails: with an empty configured set, group 0 passes
  \<^verbatim>\<open>shouldTile\<close> on the configuration as parsed, and still does after the startup step
  when the window manager reports one desktop or no desktop count.
\<close>

theorem single_desktop_tiles_group_zero:
  "tiledDesktops tile_unset = {} \<and> shouldTile 0 tile_unset \<and>
   shouldTile 0 (main_tiledDesktops tile_unset (Some 1)) \<and>
   shouldTile 0 (main_tiledDesktops tile_unset None)"
  by (simp add: shouldTile_def main_tiledDesktops_def defaultTiledDesktops_def)

section \<open>Claims about the debounce scheduler\<close>

lemma handle_event_structural: "is_structural ty \<Longrightarrow> handle_event d s (ty, now) = Some (now + d)"
  by (cases ty) simp_all

lemma handle_event_other: "\<not> is_structural ty \<Longrightarrow> handle_event d s (ty, now) = s"
  by (cases ty) simp_all

lemma events_loop_eq:
  "events_loop d s evs =
     (if tick_notifications (evs, c) = [] then s
      else Some (last (tick_notifications (evs, c)) + d))"
proof (induction evs arbitrary: s)
  case Nil
  then show ?case by (simp add: tick_notifications_def)
next
  case (Cons e evs)
  obtain ty now where e: "e = (ty, now)" by (cases e)
  show ?case
  proof (cases "is_structural ty")
    case True
    then show ?thesis
      using Cons.IH [of "Some (now + d)"]
      by (simp add: e handle_event_structural tick_notifications_def)
  next
    case False
    then show ?thesis
      using Cons.IH [of s] by (simp add: e handle_event_other tick_notifications_def)
  qed
qed

lemma daemon_tick_eq:
  "daemon_tick d s t =
     (case events_loop d s (fst t) of
        None \<Rightarrow> (None, False)
      | Some due \<Rightarrow> if due \<le> snd t then (None, True) else (Some due, False))"
  by (simp add: daemon_tick_def split: option.splits)

lemma quiet_idle:
  "notification_times ts = [] \<Longrightarrow> daemon_loop d None ts = []"
proof (induction ts)
  case Nil
  then show ?case by simp
next
  case (Cons t ts)
  then have "tick_notifications t = []" by simp
  then have "events_loop d None (fst t) = None"
    using events_loop_eq [of d None "fst t" "snd t"] by simp
  then show ?case using Cons by (simp add: daemon_tick_eq)
qed

lemma quiet_pending:
  "notification_times ts = [] \<Longrightarrow>
   daemon_loop d (Some due) ts = take 1 (filter (\<lambda>c. due \<le> c) (map snd ts))"
proof (induction ts)
  case Nil
  then show ?case by simp
next
  case (Cons t ts)
  then have "tick_notifications t = []" by simp
  then have "events_loop d (Some due) (fst t) = Some due"
    using events_loop_eq [of d "Some due" "fst t" "snd t"] by simp
  then show ?case using Cons by (simp add: daemon_tick_eq quiet_idle)
qed

lemma notification_subset: "set (notification_times ts) \<subseteq> set (clock_readings ts)"
  by (induction ts) auto

lemma sorted_notification_times: "sorted (clock_readings ts) \<Longrightarrow> sorted (notification_times ts)"
proof (induction ts)
  case Nil
  then show ?case by simp
next
  case (Cons t ts)
  then show ?case
    using notification_subset [of ts] by (auto simp: sorted_append)
qed

lemma coalesce_general:
  assumes "sorted (clock_readings ts)"
    and "\<forall>n \<in> set (notification_times ts). n \<le> L \<and> L < n + d"
    and "0 < d"
    and "case s of None \<Rightarrow> True | Some due \<Rightarrow> L < due \<and> due \<le> L + d"
    and "(notification_times ts \<noteq> [] \<and> last (notification_times ts) = L) \<or>
         (notification_times ts = [] \<and> s = Some (L + d))"
  shows "daemon_loop d s ts = take 1 (filter (\<lambda>c. L + d \<le> c) (map snd ts))"
  using assms
proof (induction ts arbitrary: s)
  case Nil
  then show ?case by simp
next
  case (Cons t ts)
  define ns where "ns = tick_notifications t"
  define s' where "s' = events_loop d s (fst t)"
  have s'_eq: "s' = (if ns = [] then s else Some (last ns + d))"
    unfolding s'_def ns_def using events_loop_eq [of d s "fst t" "snd t"] by simp
  have srt: "sorted (clock_readings ts)" and after: "\<forall>r \<in> set (clock_readings ts). snd t \<le> r"
    using Cons.prems(1) by (auto simp: sorted_append)
  have bound: "\<forall>n \<in> set ns \<union> set (notification_times ts). n \<le> L \<and> L < n + d"
    using Cons.prems(2) by (auto simp: ns_def)
  show ?case
  proof (cases "notification_times ts = []")
    case quiet: True
    have "s' = Some (L + d)"
    proof (cases "ns = []")
      case True
      then show ?thesis using Cons.prems(5) quiet by (simp add: s'_eq ns_def)
    next
      case False
      then have "last ns = L" using Cons.prems(5) quiet by (simp add: ns_def)
      then show ?thesis using False by (simp add: s'_eq)
    qed
    then show ?thesis
      using quiet by (simp add: daemon_tick_eq s'_def [symmetric] quiet_idle quiet_pending)
  next
    case more: False
    then have lastL: "last (notification_times ts) = L"
      using Cons.prems(5) by simp
    have "hd (notification_times ts) \<in> set (clock_readings ts)"
      using more notification_subset [of ts] by (meson hd_in_set subsetD)
    then have "snd t \<le> hd (notification_times ts)" using after by blast
    moreover have "hd (notification_times ts) \<le> L" using bound more by simp
    ultimately have early: "snd t \<le> L" by simp
    have inv: "case s' of None \<Rightarrow> True | Some due \<Rightarrow> L < due \<and> due \<le> L + d"
    proof (cases "ns = []")
      case True
      then show ?thesis using Cons.prems(4) by (simp add: s'_eq)
    next
      case False
      then have "last ns \<in> set ns" by simp
      then have "last ns \<le> L \<and> L < last ns + d" using bound by blast
      then show ?thesis using False by (simp add: s'_eq)
    qed
    have idle: "daemon_tick d s t = (s', False)"
      using inv early by (auto simp: daemon_tick_eq s'_def [symmetric] split: option.splits)
    have skip: "\<not> L + d \<le> snd t" using early Cons.prems(3) by simp
    have "daemon_loop d s' ts = take 1 (filter (\<lambda>c. L + d \<le> c) (map snd ts))"
      using Cons.IH [of s'] srt bound Cons.prems(3) inv more lastL by simp
    then show ?thesis using idle skip by simp
  qed
qed

lemma sorted_hd_last:
  assumes "sorted (ns :: int list)" "n \<in> set ns"
  shows "hd ns \<le> n \<and> n \<le> last ns"
proof -
  obtain i where i: "i < length ns" "ns ! i = n" using assms(2) by (auto simp: in_set_conv_nth)
  have ne: "ns \<noteq> []" using assms(2) by auto
  have "ns ! 0 \<le> ns ! i" using assms(1) i(1) by (simp add: sorted_nth_mono)
  moreover have "ns ! i \<le> ns ! (length ns - 1)"
    using assms(1) i(1) by (simp add: sorted_nth_mono)
  ultimately show ?thesis using i(2) ne by (simp add: hd_conv_nth last_conv_nth)
qed

text \<open>
  Claim C9. Handling a structural event (\<^verbatim>\<open>PropertyNotify\<close>, \<^verbatim>\<open>CreateNotify\<close>,
  \<^verbatim>\<open>DestroyNotify\<close>, \<^verbatim>\<open>ConfigureNotify\<close>) sets the schedule to the clock reading taken
  for that event plus the debounce interval, whatever was pending; any other event leaves
  it alone. A pass of the loop recomputes exactly when, after its events, a due time is
  pending and the clock has reached it, and then the schedule is cleared; in particular a
  pass that handled a notification and checks the clock before that notification's due
  time does not recompute and leaves the due time pending. For a run that starts with no
  schedule, with a monotone clock, whose notifications all fall within one debounce
  interval: the recomputes of the run are the first pass, if any, whose check is at or
  after the last notification's time plus the interval, and no other.
\<close>

theorem debounce_coalescing:
  "(is_structural ty \<longrightarrow> handle_event d s (ty, now) = Some (now + d)) \<and>
   (\<not> is_structural ty \<longrightarrow> handle_event d s (ty, now) = s) \<and>
   daemon_tick d s t =
     (case events_loop d s (fst t) of
        None \<Rightarrow> (None, False)
      | Some due \<Rightarrow> if due \<le> snd t then (None, True) else (Some due, False)) \<and>
   (tick_notifications t \<noteq> [] \<longrightarrow>
      events_loop d s (fst t) = Some (last (tick_notifications t) + d) \<and>
      (snd t < last (tick_notifications t) + d \<longrightarrow>
         daemon_tick d s t = (Some (last (tick_notifications t) + d), False))) \<and>
   (sorted (clock_readings ts) \<and> notification_times ts \<noteq> [] \<and>
    last (notification_times ts) < hd (notification_times ts) + d \<longrightarrow>
      runDaemon_recomputes d ts =
        take 1 (filter (\<lambda>c. last (notification_times ts) + d \<le> c) (map snd ts)))"
proof (intro conjI impI)
  show "is_structural ty \<Longrightarrow> handle_event d s (ty, now) = Some (now + d)"
    by (rule handle_event_structural)
  show "\<not> is_structural ty \<Longrightarrow> handle_event d s (ty, now) = s"
    by (rule handle_event_other)
  show "daemon_tick d s t =
     (case events_loop d s (fst t) of
        None \<Rightarrow> (None, False)
      | Some due \<Rightarrow> if due \<le> snd t then (None, True) else (Some due, False))"
    by (rule daemon_tick_eq)
  show ev: "events_loop d s (fst t) = Some (last (tick_notifications t) + d)"
    if "tick_notifications t \<noteq> []"
    using that events_loop_eq [of d s "fst t" "snd t"] by simp
  show "daemon_tick d s t = (Some (last (tick_notifications t) + d), False)"
    if "tick_notifications t \<noteq> []" "snd t < last (tick_notifications t) + d"
    using that ev by (simp add: daemon_tick_eq)
  show "runDaemon_recomputes d ts =
        take 1 (filter (\<lambda>c. last (notification_times ts) + d \<le> c) (map snd ts))"
    if burst: "sorted (clock_readings ts) \<and> notification_times ts \<noteq> [] \<and>
      last (notification_times ts) < hd (notification_times ts) + d"
  proof -
    define L where "L = last (notification_times ts)"
    have srt: "sorted (notification_times ts)"
      using burst by (simp add: sorted_notification_times)
    have bound: "\<forall>n \<in> set (notification_times ts). n \<le> L \<and> L < n + d"
      using sorted_hd_last [OF srt] burst unfolding L_def by fastforce
    have "hd (notification_times ts) \<le> L"
      using burst bound by simp
    then have pos: "0 < d" using burst unfolding L_def by simp
    show ?thesis
      unfolding runDaemon_recomputes_def L_def [symmetric]
      using burst bound pos
      by (intro coalesce_general) (simp_all add: L_def)
  qed
qed

theorem debounce_coalescing_witness:
  "sorted (clock_readings
     [([(CreateNotify, 0), (ConfigureNotify, 10)], 20), ([(PropertyNotify, 60)], 70),
      ([], 120), ([], 170), ([], 220), ([(OtherEvent, 0)], 270), ([], 320)]) \<and>
   notification_times
     [([(CreateNotify, 0), (ConfigureNotify, 10)], 20), ([(PropertyNotify, 60)], 70),
      ([], 120), ([], 170), ([], 220), ([(OtherEvent, 0)], 270), ([], 320)] = [0, 10, 60] \<and>
   runDaemon_recomputes 200
     [([(CreateNotify, 0), (ConfigureNotify, 10)], 20), ([(PropertyNotify, 60)], 70),
      ([], 120), ([], 170), ([], 220), ([(OtherEvent, 0)], 270), ([], 320)] = [270] \<and>
   is_structural DestroyNotify \<and> handle_event 200 (Some 5) (DestroyNotify, 40) = Some 240 \<and>
   daemon_tick 200 None ([(CreateNotify, 0), (ConfigureNotify, 10)], 20) = (Some 210, False)"
  using debounce_coalescing [of DestroyNotify 200 "Some 5" 40
      "([(CreateNotify, 0), (ConfigureNotify, 10)], 20)"
      "[([(CreateNotify, 0), (ConfigureNotify, 10)], 20), ([(PropertyNotify, 60)], 70),
        ([], 120), ([], 170), ([], 220), ([(OtherEvent, 0)], 270), ([], 320)]"]
    debounce_coalescing [of _ 200 None _ "([(CreateNotify, 0), (ConfigureNotify, 10)], 20)"]
  by (simp add: tick_notifications_def)

end
